theory Spec2Isabelle
  imports Complex_Main "HOL-Library.AList" "HOL-Library.Product_Lexorder"
begin

section \<open>The cutting optimizer of \<^verbatim>\<open>app.py\<close>\<close>

text \<open>
  The two pure functions of \<^verbatim>\<open>app.py\<close> are embedded: \<^verbatim>\<open>find_all_cuts\<close> (the spec's
  \<^verbatim>\<open>find_combinations\<close>) and \<^verbatim>\<open>suggest_optimal_quantities\<close> (the spec's \<^verbatim>\<open>suggest\<close>).

  \<^item> Python integers are \<^typ>\<open>int\<close>.
  \<^item> A Python \<^verbatim>\<open>dict\<close> keeps its insertion order, and both functions iterate over
    \<^verbatim>\<open>items()\<close>: a dictionary is an association list in insertion order;
    \<^verbatim>\<open>d[k]\<close> is \<^const>\<open>map_of\<close> (a missing key raises \<^verbatim>\<open>KeyError\<close>) and
    \<^verbatim>\<open>d[k] = v\<close> is \<^const>\<open>AList.update\<close>. A well-formed dictionary has distinct keys.
  \<^item> A tuple is a list.
  \<^item> The quotient \<^verbatim>\<open>total_length / raw_length\<close> is Python's true division, a float.
    It is modelled by the exact quotient in \<^typ>\<open>real\<close>, the value that the float rounds;
    rounding, overflow and underflow of floats are outside the model.
  \<^item> Exceptions are values: a function that may raise returns \<open>error + 'a\<close>.
\<close>

subsection \<open>Library functions used by the program\<close>

datatype error = KeyError | ZeroDivisionError

text \<open>
  \<^verbatim>\<open>itertools.combinations_with_replacement(pool, r)\<close>: the tuples of \<open>r\<close> elements of
  the pool at non-decreasing positions, in lexicographic order of the positions.
\<close>

fun combinations_with_replacement :: "'a list \<Rightarrow> nat \<Rightarrow> 'a list list" where
  "combinations_with_replacement pool 0 = [[]]"
| "combinations_with_replacement [] (Suc r) = []"
| "combinations_with_replacement (x # pool) (Suc r) =
     map ((#) x) (combinations_with_replacement (x # pool) r)
     @ combinations_with_replacement pool (Suc r)"

text \<open>
  \<^verbatim>\<open>collections.Counter(iterable)\<close>: a dictionary from each element to the number of its
  occurrences, the keys in the order of their first occurrence.
\<close>

fun counter_add :: "'a \<Rightarrow> ('a \<times> int) list \<Rightarrow> ('a \<times> int) list" where
  "counter_add x [] = [(x, 1)]"
| "counter_add x ((k, c) # kcs) =
     (if k = x then (k, c + 1) # kcs else (k, c) # counter_add x kcs)"

definition Counter :: "'a list \<Rightarrow> ('a \<times> int) list" where
  "Counter xs = foldl (\<lambda>acc x. counter_add x acc) [] xs"

subsection \<open>The catalog\<close>

definition CUT_LENGTHS :: "int list" where
  "CUT_LENGTHS = [515, 1025, 1145, 1835, 2045, 2075, 2165, 2515, 2835, 3575,
                  3695, 3755, 3815, 4085, 4155, 4225, 5015, 5375, 5515, 6000]"

subsection \<open>\<^verbatim>\<open>find_all_cuts\<close>\<close>

record scored =
  combination :: "int list"
  total_length :: int
  waste :: int
  efficiency :: real
  pieces :: int

text \<open>
  The loop over \<^verbatim>\<open>combo_count.items()\<close>: the lookup \<^verbatim>\<open>desired_cuts[length]\<close> raises
  \<^verbatim>\<open>KeyError\<close> on a missing key; the loop breaks at the first length that is needed
  more often than it is desired.
\<close>

fun check_valid :: "(int \<times> int) list \<Rightarrow> (int \<times> int) list \<Rightarrow> error + bool" where
  "check_valid desired_cuts [] = Inr True"
| "check_valid desired_cuts ((len, needed) # rest) =
     (case map_of desired_cuts len of
        None \<Rightarrow> Inl KeyError
      | Some qty \<Rightarrow> if needed > qty then Inr False else check_valid desired_cuts rest)"

text \<open>
  The body of the inner loop for one \<^verbatim>\<open>combo\<close>: the results it appends (none or one),
  or the exception it raises.
\<close>

definition try_combo :: "int \<Rightarrow> (int \<times> int) list \<Rightarrow> int list \<Rightarrow> error + scored list" where
  "try_combo raw_length desired_cuts combo =
     (let total = sum_list combo in
      if total \<le> raw_length then
        (case check_valid desired_cuts (Counter combo) of
           Inl e \<Rightarrow> Inl e
         | Inr valid \<Rightarrow>
             if valid then
               (if raw_length = 0 then Inl ZeroDivisionError
                else Inr [\<lparr>combination = combo,
                           total_length = total,
                           waste = raw_length - total,
                           efficiency = (of_int total / of_int raw_length) * 100,
                           pieces = int (length combo)\<rparr>])
             else Inr [])
      else Inr [])"

text \<open>The two nested loops, run over the combos in the order they are generated.\<close>

fun run_combos ::
  "int \<Rightarrow> (int \<times> int) list \<Rightarrow> int list list \<Rightarrow> scored list \<Rightarrow> error + scored list" where
  "run_combos raw_length desired_cuts [] results = Inr results"
| "run_combos raw_length desired_cuts (combo # combos) results =
     (case try_combo raw_length desired_cuts combo of
        Inl e \<Rightarrow> Inl e
      | Inr new \<Rightarrow> run_combos raw_length desired_cuts combos (results @ new))"

definition available_lengths :: "(int \<times> int) list \<Rightarrow> int list" where
  "available_lengths desired_cuts = map fst (filter (\<lambda>(len, qty). qty > 0) desired_cuts)"

definition max_pieces :: "(int \<times> int) list \<Rightarrow> int" where
  "max_pieces desired_cuts = sum_list (map snd desired_cuts)"

text \<open>
  All combos of the loop nest: \<^verbatim>\<open>combo_size\<close> runs over \<^verbatim>\<open>range(1, max_pieces + 1)\<close>,
  which is empty when \<^verbatim>\<open>max_pieces\<close> is not positive.
\<close>

definition generated :: "(int \<times> int) list \<Rightarrow> int list list" where
  "generated desired_cuts =
     concat (map (combinations_with_replacement (available_lengths desired_cuts))
                 [1 ..< nat (max_pieces desired_cuts + 1)])"

definition sort_results :: "scored list \<Rightarrow> scored list" where
  "sort_results results = sort_key (\<lambda>x. (- efficiency x, waste x)) results"

definition find_all_cuts :: "int \<Rightarrow> (int \<times> int) list \<Rightarrow> error + scored list" where
  "find_all_cuts raw_length desired_cuts =
     (if available_lengths desired_cuts = [] then Inr []
      else
        (case run_combos raw_length desired_cuts (generated desired_cuts) [] of
           Inl e \<Rightarrow> Inl e
         | Inr results \<Rightarrow> Inr (take 5 (sort_results results))))"

subsection \<open>\<^verbatim>\<open>suggest_optimal_quantities\<close>\<close>

text \<open>
  The search loop. The state is \<^verbatim>\<open>(best_combo, best_efficiency)\<close>; \<^verbatim>\<open>None\<close> is
  \<^const>\<open>None\<close>.
\<close>

fun suggest_loop ::
  "int \<Rightarrow> int list list \<Rightarrow> int list option \<times> real \<Rightarrow> error + (int list option \<times> real)" where
  "suggest_loop raw_length [] best = Inr best"
| "suggest_loop raw_length (combo # combos) (best_combo, best_efficiency) =
     (let total = sum_list combo in
      if total \<le> raw_length then
        (if raw_length = 0 then Inl ZeroDivisionError
         else
           (let eff = (of_int total / of_int raw_length) * 100 in
            if eff > best_efficiency
            then suggest_loop raw_length combos (Some combo, eff)
            else suggest_loop raw_length combos (best_combo, best_efficiency)))
      else suggest_loop raw_length combos (best_combo, best_efficiency))"

text \<open>The combos of sizes 2, 3 and 4 over the catalog, \<^verbatim>\<open>range(2, 5)\<close>.\<close>

definition catalog_combos :: "int list list" where
  "catalog_combos = concat (map (combinations_with_replacement CUT_LENGTHS) [2 ..< 5])"

definition best_combo_of :: "int \<Rightarrow> error + int list option" where
  "best_combo_of raw_length =
     (case suggest_loop raw_length catalog_combos (None, 0) of
        Inl e \<Rightarrow> Inl e
      | Inr (best_combo, best_efficiency) \<Rightarrow> Inr best_combo)"

text \<open>The dictionary \<^verbatim>\<open>{length: 0 for length in CUT_LENGTHS}\<close>.\<close>

definition zero_quantities :: "(int \<times> int) list" where
  "zero_quantities = map (\<lambda>len. (len, 0)) CUT_LENGTHS"

text \<open>
  The conversion to a dictionary. \<^verbatim>\<open>if best_combo:\<close> is false for \<^verbatim>\<open>None\<close> and for
  the empty tuple.
\<close>

definition to_quantities :: "int list option \<Rightarrow> (int \<times> int) list" where
  "to_quantities best_combo =
     (let suggested_cuts = zero_quantities in
      case best_combo of
        None \<Rightarrow> suggested_cuts
      | Some combo \<Rightarrow>
          if combo = [] then suggested_cuts
          else foldl (\<lambda>d (len, count). AList.update len count d) suggested_cuts (Counter combo))"

definition suggest_optimal_quantities :: "int \<Rightarrow> error + (int \<times> int) list" where
  "suggest_optimal_quantities raw_length =
     (case best_combo_of raw_length of
        Inl e \<Rightarrow> Inl e
      | Inr best_combo \<Rightarrow> Inr (to_quantities best_combo))"

subsection \<open>Notions used to state the properties\<close>

text \<open>The efficiency of a combo, as both functions compute it.\<close>

definition combo_efficiency :: "int \<Rightarrow> int list \<Rightarrow> real" where
  "combo_efficiency raw_length combo = (of_int (sum_list combo) / of_int raw_length) * 100"

section \<open>Properties of the library functions\<close>

text \<open>The generation order and the counting, on small inputs.\<close>

lemma cwr_example:
  "combinations_with_replacement [1, 2, 3 :: int] 2 =
     [[1, 1], [1, 2], [1, 3], [2, 2], [2, 3], [3, 3]]"
  by code_simp

lemma Counter_example: "Counter [3, 1, 3, 2, 1 :: int] = [(3, 2), (1, 2), (2, 1)]"
  by code_simp

lemma cwr_length:
  "c \<in> set (combinations_with_replacement pool r) \<Longrightarrow> length c = r"
  by (induction pool r arbitrary: c rule: combinations_with_replacement.induct) auto

lemma cwr_subset:
  "c \<in> set (combinations_with_replacement pool r) \<Longrightarrow> set c \<subseteq> set pool"
  by (induction pool r arbitrary: c rule: combinations_with_replacement.induct) fastforce+

lemma counter_add_fst:
  "map fst (counter_add x kcs) =
     (if x \<in> set (map fst kcs) then map fst kcs else map fst kcs @ [x])"
  by (induction kcs) (auto simp: rev_image_eqI)

lemma counter_add_keys: "fst ` set (counter_add x kcs) = insert x (fst ` set kcs)"
  using arg_cong [OF counter_add_fst, of set x kcs] by auto

lemma counter_add_distinct:
  "distinct (map fst kcs) \<Longrightarrow> distinct (map fst (counter_add x kcs))"
  by (simp add: counter_add_fst)

lemma counter_add_map_of:
  "map_of (counter_add x kcs) k =
     (if k = x then Some (case map_of kcs x of None \<Rightarrow> 1 | Some c \<Rightarrow> c + 1)
      else map_of kcs k)"
  by (induction kcs) auto

lemma counter_fold_keys: "fst ` set (foldl (\<lambda>acc x. counter_add x acc) acc xs) = fst ` set acc \<union> set xs"
  by (induction xs arbitrary: acc) (auto simp: counter_add_keys)

lemma counter_fold_distinct:
  "distinct (map fst acc) \<Longrightarrow> distinct (map fst (foldl (\<lambda>acc x. counter_add x acc) acc xs))"
  by (induction xs arbitrary: acc) (auto simp: counter_add_distinct)

lemma counter_fold_map_of:
  "map_of (foldl (\<lambda>acc x. counter_add x acc) acc xs) k =
     (case map_of acc k of
        None \<Rightarrow> if k \<in> set xs then Some (int (count_list xs k)) else None
      | Some c \<Rightarrow> Some (c + int (count_list xs k)))"
  by (induction xs arbitrary: acc) (auto simp: counter_add_map_of split: option.splits)

lemma Counter_keys: "fst ` set (Counter xs) = set xs"
  using counter_fold_keys [of "[]" xs] by (simp add: Counter_def)

lemma Counter_distinct: "distinct (map fst (Counter xs))"
  using counter_fold_distinct [of "[]" xs] by (simp add: Counter_def)

lemma Counter_map_of:
  "map_of (Counter xs) k = (if k \<in> set xs then Some (int (count_list xs k)) else None)"
  using counter_fold_map_of [of "[]" xs k] by (simp add: Counter_def)

lemma Counter_entry:
  "(k, c) \<in> set (Counter xs) \<longleftrightarrow> k \<in> set xs \<and> c = int (count_list xs k)"
  using Counter_map_of [of xs k] map_of_eq_Some_iff [OF Counter_distinct, of xs k c]
  by (auto split: if_splits)

lemma check_valid_defined:
  "\<forall>k \<in> fst ` set kcs. k \<in> fst ` set d \<Longrightarrow> \<exists>b. check_valid d kcs = Inr b"
proof (induction kcs)
  case Nil
  show ?case by (rule exI [of _ True]) simp
next
  case (Cons p kcs)
  obtain k c where p: "p = (k, c)" by (cases p)
  from Cons.prems have "k \<in> fst ` set d" by (simp add: p)
  then obtain q where "map_of d k = Some q"
    by (metis domD dom_map_of_conv_image_fst)
  moreover from Cons obtain b where "check_valid d kcs = Inr b" by auto
  ultimately show ?case by (cases "c > q") (auto simp: p)
qed

lemma check_valid_True:
  "check_valid d kcs = Inr True \<Longrightarrow> (k, c) \<in> set kcs \<Longrightarrow> \<exists>q. map_of d k = Some q \<and> c \<le> q"
  by (induction kcs) (auto split: option.splits if_splits)

lemma available_lengths_keys: "set (available_lengths d) \<subseteq> fst ` set d"
  by (auto simp: available_lengths_def image_iff)

lemma generated_subset: "c \<in> set (generated d) \<Longrightarrow> set c \<subseteq> set (available_lengths d)"
  by (auto simp: generated_def dest: cwr_subset)


lemma generated_check_valid:
  assumes "c \<in> set (generated d)"
  shows "\<exists>b. check_valid d (Counter c) = Inr b"
proof (rule check_valid_defined)
  show "\<forall>k \<in> fst ` set (Counter c). k \<in> fst ` set d"
    using generated_subset [OF assms] available_lengths_keys [of d]
    by (auto simp: Counter_keys)
qed

section \<open>Properties of \<^verbatim>\<open>find_all_cuts\<close>\<close>

lemma try_combo_defined:
  assumes "c \<in> set (generated d)" and "raw \<noteq> 0"
  shows "\<exists>new. try_combo raw d c = Inr new"
proof -
  from generated_check_valid [OF assms(1)]
  obtain b where "check_valid d (Counter c) = Inr b" ..
  with assms(2) show ?thesis by (simp add: try_combo_def Let_def)
qed

lemma try_combo_not_KeyError:
  assumes "c \<in> set (generated d)"
  shows "try_combo raw d c \<noteq> Inl KeyError"
proof -
  from generated_check_valid [OF assms]
  obtain b where "check_valid d (Counter c) = Inr b" ..
  then show ?thesis by (simp add: try_combo_def Let_def)
qed

lemma try_combo_result:
  assumes "try_combo raw d c = Inr new" and "r \<in> set new"
  shows "r = \<lparr>combination = c, total_length = sum_list c, waste = raw - sum_list c,
              efficiency = (of_int (sum_list c) / of_int raw) * 100,
              pieces = int (length c)\<rparr>
         \<and> sum_list c \<le> raw \<and> raw \<noteq> 0 \<and> check_valid d (Counter c) = Inr True"
  using assms
  by (auto simp: try_combo_def Let_def split: if_splits sum.splits)

lemma run_combos_member:
  "run_combos raw d cs acc = Inr rs \<Longrightarrow> r \<in> set rs \<Longrightarrow>
     r \<in> set acc \<or> (\<exists>c \<in> set cs. \<exists>new. try_combo raw d c = Inr new \<and> r \<in> set new)"
proof (induction cs arbitrary: acc)
  case Nil
  then show ?case by simp
next
  case (Cons c cs)
  from Cons.prems(1) obtain new where new: "try_combo raw d c = Inr new"
    and rest: "run_combos raw d cs (acc @ new) = Inr rs"
    by (auto split: sum.splits)
  from Cons.IH [OF rest Cons.prems(2)] new show ?case by auto
qed

lemma run_combos_defined:
  "\<forall>c \<in> set cs. \<exists>new. try_combo raw d c = Inr new \<Longrightarrow> \<exists>rs. run_combos raw d cs acc = Inr rs"
  by (induction cs arbitrary: acc) auto

lemma run_combos_not_KeyError:
  "\<forall>c \<in> set cs. try_combo raw d c \<noteq> Inl KeyError \<Longrightarrow> run_combos raw d cs acc \<noteq> Inl KeyError"
  by (induction cs arbitrary: acc) (auto split: sum.splits)

lemma find_all_cuts_defined:
  assumes "raw \<noteq> 0"
  shows "\<exists>rs. find_all_cuts raw d = Inr rs"
proof -
  have "\<forall>c \<in> set (generated d). \<exists>new. try_combo raw d c = Inr new"
    using assms by (blast intro: try_combo_defined)
  from run_combos_defined [OF this, of "[]"]
  show ?thesis by (auto simp: find_all_cuts_def)
qed

lemma find_all_cuts_member:
  assumes "find_all_cuts raw d = Inr rs" and "r \<in> set rs"
  shows "\<exists>c \<in> set (generated d). \<exists>new. try_combo raw d c = Inr new \<and> r \<in> set new"
proof (cases "available_lengths d = []")
  case True
  with assms show ?thesis by (simp add: find_all_cuts_def)
next
  case False
  with assms(1) obtain results where run: "run_combos raw d (generated d) [] = Inr results"
    and rs: "rs = take 5 (sort_results results)"
    by (auto simp: find_all_cuts_def split: sum.splits)
  from assms(2) have "r \<in> set results"
    unfolding rs sort_results_def by (auto dest: in_set_takeD)
  with run_combos_member [OF run] show ?thesis by simp
qed

lemma find_all_cuts_not_KeyError: "find_all_cuts raw d \<noteq> Inl KeyError"
proof -
  have "\<forall>c \<in> set (generated d). try_combo raw d c \<noteq> Inl KeyError"
    using try_combo_not_KeyError by blast
  from run_combos_not_KeyError [OF this, of "[]"]
  show ?thesis by (auto simp: find_all_cuts_def split: sum.splits)
qed

lemma find_all_cuts_sorted:
  assumes "find_all_cuts raw d = Inr rs"
  shows "length rs \<le> 5 \<and> sorted (map (\<lambda>x. (- efficiency x, waste x)) rs)"
proof (cases "available_lengths d = []")
  case True
  with assms show ?thesis by (simp add: find_all_cuts_def)
next
  case False
  with assms obtain results where rs: "rs = take 5 (sort_results results)"
    by (auto simp: find_all_cuts_def split: sum.splits)
  have "sorted (map (\<lambda>x. (- efficiency x, waste x)) (sort_results results))"
    unfolding sort_results_def by (rule sorted_sort_key)
  then have "sorted (take 5 (map (\<lambda>x. (- efficiency x, waste x)) (sort_results results)))"
    by (rule sorted_wrt_take)
  then show ?thesis by (simp add: rs take_map)
qed

subsection \<open>Two runs, evaluated\<close>

lemma find_eval_1000:
  "find_all_cuts 1000 [(515, 1), (1025, 1)] =
     Inr [\<lparr>combination = [515], total_length = 515, waste = 485,
            efficiency = 103 / 2, pieces = 1\<rparr>]"
  by code_simp

lemma find_eval_top5:
  "find_all_cuts 6000 [(515, 3), (1025, 2)] =
     Inr [\<lparr>combination = [515, 515, 515, 1025, 1025], total_length = 3595, waste = 2405,
            efficiency = 719 / 12, pieces = 5\<rparr>,
          \<lparr>combination = [515, 515, 1025, 1025], total_length = 3080, waste = 2920,
            efficiency = 154 / 3, pieces = 4\<rparr>,
          \<lparr>combination = [515, 515, 515, 1025], total_length = 2570, waste = 3430,
            efficiency = 257 / 6, pieces = 4\<rparr>,
          \<lparr>combination = [515, 1025, 1025], total_length = 2565, waste = 3435,
            efficiency = 171 / 4, pieces = 3\<rparr>,
          \<lparr>combination = [515, 515, 1025], total_length = 2055, waste = 3945,
            efficiency = 137 / 4, pieces = 3\<rparr>]"
  by code_simp

section \<open>The claims about \<^verbatim>\<open>find_all_cuts\<close>\<close>

text \<open>
  Claim C8. Whenever no length of \<^verbatim>\<open>desired_cuts\<close> has a positive quantity,
  \<^verbatim>\<open>find_all_cuts\<close> returns the empty list and raises nothing, for every raw length;
  in particular for the empty dictionary and for a dictionary whose values are all 0.
\<close>

theorem find_all_cuts_no_positive_quantity:
  "((\<forall>(len, qty) \<in> set d. \<not> qty > 0) \<longrightarrow> find_all_cuts L d = Inr [])
   \<and> find_all_cuts L [] = Inr []
   \<and> find_all_cuts L (map (\<lambda>x. (x, 0)) lengths) = Inr []"
proof -
  have *: "find_all_cuts L d' = Inr []" if "\<forall>(len, qty) \<in> set d'. \<not> qty > 0" for d'
  proof -
    from that have "filter (\<lambda>(len, qty). qty > 0) d' = []"
      by (auto simp: filter_empty_conv)
    then show ?thesis by (simp add: find_all_cuts_def available_lengths_def)
  qed
  show ?thesis
  proof (intro conjI impI)
    show "find_all_cuts L d = Inr []" if "\<forall>(len, qty) \<in> set d. \<not> qty > 0"
      using that by (rule *)
    show "find_all_cuts L [] = Inr []" by (rule *) simp
    show "find_all_cuts L (map (\<lambda>x. (x, 0)) lengths) = Inr []" by (rule *) auto
  qed
qed

theorem find_all_cuts_no_positive_quantity_witness:
  "find_all_cuts 6000 [(515, 0), (1025, 0)] = Inr []"
  using find_all_cuts_no_positive_quantity [of "[(515, 0), (1025, 0)]" 6000] by simp

text \<open>
  Claim C10. The lookup \<^verbatim>\<open>desired_cuts[length]\<close> of the validity check is always
  defined: the available lengths are keys of \<^verbatim>\<open>desired_cuts\<close>, every generated combo
  draws its lengths from the available lengths, so every length of a combo has a quantity,
  the validity check of every generated combo returns a value, and neither the loop body
  nor \<^verbatim>\<open>find_all_cuts\<close> raises \<^verbatim>\<open>KeyError\<close>, for every input.
\<close>

theorem lookup_always_defined:
  "find_all_cuts raw_length desired_cuts \<noteq> Inl KeyError
   \<and> set (available_lengths desired_cuts) \<subseteq> fst ` set desired_cuts
   \<and> (\<forall>combo \<in> set (generated desired_cuts).
         set combo \<subseteq> set (available_lengths desired_cuts)
         \<and> (\<forall>len \<in> set combo. \<exists>qty. map_of desired_cuts len = Some qty)
         \<and> (\<exists>valid. check_valid desired_cuts (Counter combo) = Inr valid)
         \<and> try_combo raw_length desired_cuts combo \<noteq> Inl KeyError)"
proof (intro conjI ballI)
  show "find_all_cuts raw_length desired_cuts \<noteq> Inl KeyError"
    by (rule find_all_cuts_not_KeyError)
  show keys: "set (available_lengths desired_cuts) \<subseteq> fst ` set desired_cuts"
    by (rule available_lengths_keys)
  fix combo assume combo: "combo \<in> set (generated desired_cuts)"
  show sub: "set combo \<subseteq> set (available_lengths desired_cuts)"
    using combo by (rule generated_subset)
  show "\<exists>qty. map_of desired_cuts len = Some qty" if "len \<in> set combo" for len
  proof -
    from that sub keys have "len \<in> fst ` set desired_cuts" by blast
    then show ?thesis by (metis domD dom_map_of_conv_image_fst)
  qed
  show "\<exists>valid. check_valid desired_cuts (Counter combo) = Inr valid"
    using combo by (rule generated_check_valid)
  show "try_combo raw_length desired_cuts combo \<noteq> Inl KeyError"
    using combo by (rule try_combo_not_KeyError)
qed

theorem lookup_always_defined_witness:
  "find_all_cuts 6000 [(3000, 2), (515, 0)] \<noteq> Inl KeyError
   \<and> [3000, 3000] \<in> set (generated [(3000, 2), (515, 0)])
   \<and> (\<exists>valid. check_valid [(3000, 2), (515, 0)] (Counter [3000, 3000]) = Inr valid)"
proof -
  have g: "[3000, 3000] \<in> set (generated [(3000, 2), (515, 0)])"
    by code_simp
  from lookup_always_defined [of 6000 "[(3000, 2), (515, 0)]"] g
  show ?thesis by blast
qed

text \<open>
  Claim C1. For a positive raw length and non-negative quantities, \<^verbatim>\<open>find_all_cuts\<close>
  returns, and every returned combination satisfies both constraints: its pieces sum to at
  most the raw length, every piece is a key of \<^verbatim>\<open>desired_cuts\<close>, and every length
  occurs in it at most as often as \<^verbatim>\<open>desired_cuts\<close> maps that length to.
\<close>

theorem combinations_respect_constraints:
  assumes "0 < raw_length"
    and "\<forall>(len, qty) \<in> set desired_cuts. 0 \<le> qty"
  shows "\<exists>results. find_all_cuts raw_length desired_cuts = Inr results
     \<and> (\<forall>r \<in> set results.
           sum_list (combination r) \<le> raw_length
           \<and> set (combination r) \<subseteq> fst ` set desired_cuts
           \<and> (\<forall>len qty. map_of desired_cuts len = Some qty
                 \<longrightarrow> int (count_list (combination r) len) \<le> qty))"
proof -
  from assms(1) find_all_cuts_defined [of raw_length desired_cuts]
  obtain results where res: "find_all_cuts raw_length desired_cuts = Inr results" by auto
  have "sum_list (combination r) \<le> raw_length
        \<and> set (combination r) \<subseteq> fst ` set desired_cuts
        \<and> (\<forall>len qty. map_of desired_cuts len = Some qty
              \<longrightarrow> int (count_list (combination r) len) \<le> qty)"
    if r: "r \<in> set results" for r
  proof -
    from find_all_cuts_member [OF res r] obtain c new
      where c: "c \<in> set (generated desired_cuts)"
        and new: "try_combo raw_length desired_cuts c = Inr new" "r \<in> set new"
      by blast
    from try_combo_result [OF new]
    have comb: "combination r = c" and fits: "sum_list c \<le> raw_length"
      and valid: "check_valid desired_cuts (Counter c) = Inr True"
      by simp_all
    have keys: "set c \<subseteq> fst ` set desired_cuts"
      using generated_subset [OF c] available_lengths_keys [of desired_cuts] by blast
    have "int (count_list c len) \<le> qty" if q: "map_of desired_cuts len = Some qty" for len qty
    proof (cases "len \<in> set c")
      case True
      then have "(len, int (count_list c len)) \<in> set (Counter c)"
        by (simp add: Counter_entry)
      from check_valid_True [OF valid this] q show ?thesis by simp
    next
      case False
      from map_of_SomeD [OF q] assms(2) have "0 \<le> qty" by auto
      with False show ?thesis by simp
    qed
    with comb fits keys show ?thesis by simp
  qed
  with res show ?thesis by blast
qed

theorem combinations_respect_constraints_witness:
  "\<exists>results. find_all_cuts 1000 [(515, 1), (1025, 1)] = Inr results \<and> results \<noteq> []
     \<and> (\<forall>r \<in> set results.
           sum_list (combination r) \<le> 1000
           \<and> set (combination r) \<subseteq> fst ` set [(515, 1), (1025, 1)]
           \<and> (\<forall>len qty. map_of [(515, 1), (1025, 1)] len = Some qty
                 \<longrightarrow> int (count_list (combination r) len) \<le> qty))"
  using combinations_respect_constraints [of 1000 "[(515, 1), (1025, 1)]"] find_eval_1000
  by auto



text \<open>
  Claim C2. For a positive raw length, \<^verbatim>\<open>find_all_cuts\<close> returns at most 5 results,
  sorted best first: the efficiency does not increase along the list, and among results
  of equal efficiency the waste does not decrease.
\<close>

theorem results_sorted_top5:
  assumes "0 < raw_length"
  shows "\<exists>results. find_all_cuts raw_length desired_cuts = Inr results
     \<and> length results \<le> 5
     \<and> (\<forall>i j. i < j \<and> j < length results \<longrightarrow>
           efficiency (results ! j) \<le> efficiency (results ! i)
           \<and> (efficiency (results ! i) = efficiency (results ! j)
                \<longrightarrow> waste (results ! i) \<le> waste (results ! j)))"
proof -
  from assms find_all_cuts_defined [of raw_length desired_cuts]
  obtain results where res: "find_all_cuts raw_length desired_cuts = Inr results" by auto
  from find_all_cuts_sorted [OF res]
  have len: "length results \<le> 5"
    and srt: "sorted (map (\<lambda>x. (- efficiency x, waste x)) results)"
    by simp_all
  have "efficiency (results ! j) \<le> efficiency (results ! i)
        \<and> (efficiency (results ! i) = efficiency (results ! j)
             \<longrightarrow> waste (results ! i) \<le> waste (results ! j))"
    if "i < j" "j < length results" for i j
  proof -
    from srt that
    have "map (\<lambda>x. (- efficiency x, waste x)) results ! i
          \<le> map (\<lambda>x. (- efficiency x, waste x)) results ! j"
      by (intro sorted_nth_mono) simp_all
    with that show ?thesis by (auto simp: less_eq_prod_def)
  qed
  with res len show ?thesis by blast
qed

theorem results_sorted_top5_witness:
  "\<exists>results. find_all_cuts 6000 [(515, 3), (1025, 2)] = Inr results
     \<and> length results = 5
     \<and> (\<forall>i j. i < j \<and> j < length results \<longrightarrow>
           efficiency (results ! j) \<le> efficiency (results ! i)
           \<and> (efficiency (results ! i) = efficiency (results ! j)
                \<longrightarrow> waste (results ! i) \<le> waste (results ! j)))"
  using results_sorted_top5 [of 6000 "[(515, 3), (1025, 2)]"] find_eval_top5 by auto

text \<open>
  Claim C4, as amended. For the raw length 6000 and the quantities \<open>{3000: 2}\<close>,
  \<^verbatim>\<open>find_all_cuts\<close> returns two results: first the combination (3000, 3000) with
  total length 6000, waste 0 and efficiency 100, then the single piece (3000) with total
  length 3000, waste 3000 and efficiency 50.
\<close>

theorem example_3000_two_results:
  "find_all_cuts 6000 [(3000, 2)] =
     Inr [\<lparr>combination = [3000, 3000], total_length = 6000, waste = 0,
            efficiency = 100, pieces = 2\<rparr>,
          \<lparr>combination = [3000], total_length = 3000, waste = 3000,
            efficiency = 50, pieces = 1\<rparr>]"
  by code_simp

text \<open>The claim as stated, a single result, fails: the list has two entries.\<close>

theorem example_3000_not_single:
  "find_all_cuts 6000 [(3000, 2)] \<noteq>
     Inr [\<lparr>combination = [3000, 3000], total_length = 6000, waste = 0,
            efficiency = 100, pieces = 2\<rparr>]"
proof -
  have "find_all_cuts 6000 [(3000, 2)] =
          Inr [\<lparr>combination = [3000, 3000], total_length = 6000, waste = 0,
                 efficiency = 100, pieces = 2\<rparr>,
               \<lparr>combination = [3000], total_length = 3000, waste = 3000,
                 efficiency = 50, pieces = 1\<rparr>]"
    by code_simp
  then show ?thesis by simp
qed

section \<open>Properties of \<^verbatim>\<open>suggest_optimal_quantities\<close>\<close>

subsection \<open>The generated combos\<close>

lemma cwr_replicate: "replicate r x \<in> set (combinations_with_replacement (x # pool) r)"
  by (induction r) auto

lemma catalog_combos_sizes:
  "c \<in> set catalog_combos \<Longrightarrow> 2 \<le> length c \<and> length c \<le> 4 \<and> set c \<subseteq> set CUT_LENGTHS"
  by (auto simp: catalog_combos_def dest: cwr_length cwr_subset)

lemma CUT_LENGTHS_ge: "x \<in> set CUT_LENGTHS \<Longrightarrow> 515 \<le> x"
  by (auto simp: CUT_LENGTHS_def)

lemma CUT_LENGTHS_distinct: "distinct CUT_LENGTHS"
  by (simp add: CUT_LENGTHS_def)

lemma sum_list_lower: "\<forall>x \<in> set c. (m::int) \<le> x \<Longrightarrow> m * int (length c) \<le> sum_list c"
  by (induction c) (auto simp: algebra_simps)

lemma catalog_combos_total: 
  assumes "c \<in> set catalog_combos" shows "1030 \<le> sum_list c"
proof -
  from catalog_combos_sizes [OF assms] CUT_LENGTHS_ge
  have "\<forall>x \<in> set c. 515 \<le> x" and "2 \<le> length c" by auto
  from sum_list_lower [OF this(1)] this(2) show ?thesis by simp
qed

lemma smallest_pair: "[515, 515] \<in> set catalog_combos"
proof -
  have "replicate 2 515 \<in> set (combinations_with_replacement CUT_LENGTHS 2)"
    unfolding CUT_LENGTHS_def by (rule cwr_replicate)
  then show ?thesis by (simp add: catalog_combos_def numeral_2_eq_2 upt_rec)
qed


subsection \<open>The search loop\<close>

lemma suggest_loop_char:
  assumes "0 < raw"
  shows "\<exists>b' e'. suggest_loop raw cs (b, e) = Inr (b', e') \<and>
     (if \<exists>c \<in> set cs. sum_list c \<le> raw \<and> e < combo_efficiency raw c
      then \<exists>best pre post. cs = pre @ best # post \<and> b' = Some best
             \<and> e' = combo_efficiency raw best \<and> sum_list best \<le> raw
             \<and> e < combo_efficiency raw best
             \<and> (\<forall>c \<in> set pre. sum_list c \<le> raw \<longrightarrow> combo_efficiency raw c < combo_efficiency raw best)
             \<and> (\<forall>c \<in> set post. sum_list c \<le> raw \<longrightarrow> combo_efficiency raw c \<le> combo_efficiency raw best)
      else b' = b \<and> e' = e)"
proof (induction cs arbitrary: b e)
  case Nil
  show ?case by simp
next
  case (Cons c cs)
  let ?eff = "combo_efficiency raw"
  show ?case
  proof (cases "sum_list c \<le> raw \<and> e < ?eff c")
    case True
    then have step: "suggest_loop raw (c # cs) (b, e) = suggest_loop raw cs (Some c, ?eff c)"
      using assms by (simp add: combo_efficiency_def Let_def)
    from Cons.IH [of "Some c" "?eff c"] obtain b' e'
      where run: "suggest_loop raw cs (Some c, ?eff c) = Inr (b', e')"
        and post: "if \<exists>c' \<in> set cs. sum_list c' \<le> raw \<and> ?eff c < ?eff c'
          then \<exists>best pre post. cs = pre @ best # post \<and> b' = Some best
             \<and> e' = ?eff best \<and> sum_list best \<le> raw \<and> ?eff c < ?eff best
             \<and> (\<forall>c \<in> set pre. sum_list c \<le> raw \<longrightarrow> ?eff c < ?eff best)
             \<and> (\<forall>c \<in> set post. sum_list c \<le> raw \<longrightarrow> ?eff c \<le> ?eff best)
          else b' = Some c \<and> e' = ?eff c"
      by blast
    have ex: "\<exists>c' \<in> set (c # cs). sum_list c' \<le> raw \<and> e < ?eff c'"
      using True by auto
    have "\<exists>best pre post. c # cs = pre @ best # post \<and> b' = Some best
             \<and> e' = ?eff best \<and> sum_list best \<le> raw \<and> e < ?eff best
             \<and> (\<forall>c \<in> set pre. sum_list c \<le> raw \<longrightarrow> ?eff c < ?eff best)
             \<and> (\<forall>c \<in> set post. sum_list c \<le> raw \<longrightarrow> ?eff c \<le> ?eff best)"
    proof (cases "\<exists>c' \<in> set cs. sum_list c' \<le> raw \<and> ?eff c < ?eff c'")
      case better: True
      with post obtain best pre post where
        p: "cs = pre @ best # post" "b' = Some best" "e' = ?eff best" "sum_list best \<le> raw"
           "?eff c < ?eff best"
           "\<forall>c \<in> set pre. sum_list c \<le> raw \<longrightarrow> ?eff c < ?eff best"
           "\<forall>c \<in> set post. sum_list c \<le> raw \<longrightarrow> ?eff c \<le> ?eff best"
        by auto
      show ?thesis
      proof (intro exI conjI)
        show "c # cs = (c # pre) @ best # post" using p(1) by simp
        show "b' = Some best" "e' = ?eff best" "sum_list best \<le> raw" by (fact p)+
        show "e < ?eff best" using True p(5) by simp
        show "\<forall>c \<in> set (c # pre). sum_list c \<le> raw \<longrightarrow> ?eff c < ?eff best"
          using p(5,6) by simp
        show "\<forall>c \<in> set post. sum_list c \<le> raw \<longrightarrow> ?eff c \<le> ?eff best" by (fact p)
      qed
    next
      case none: False
      with post have p: "b' = Some c" "e' = ?eff c" by simp_all
      show ?thesis
      proof (intro exI conjI)
        show "c # cs = [] @ c # cs" by simp
        show "b' = Some c" "e' = ?eff c" by (fact p)+
        show "sum_list c \<le> raw" "e < ?eff c" using True by simp_all
        show "\<forall>c' \<in> set []. sum_list c' \<le> raw \<longrightarrow> ?eff c' < ?eff c" by simp
        show "\<forall>c' \<in> set cs. sum_list c' \<le> raw \<longrightarrow> ?eff c' \<le> ?eff c"
          using none by (auto simp: not_less)
      qed
    qed
    with ex run step show ?thesis by simp
  next
    case False
    then have step: "suggest_loop raw (c # cs) (b, e) = suggest_loop raw cs (b, e)"
      using assms by (auto simp: combo_efficiency_def Let_def)
    from Cons.IH [of b e] obtain b' e'
      where run: "suggest_loop raw cs (b, e) = Inr (b', e')"
        and post: "if \<exists>c' \<in> set cs. sum_list c' \<le> raw \<and> e < ?eff c'
          then \<exists>best pre post. cs = pre @ best # post \<and> b' = Some best
             \<and> e' = ?eff best \<and> sum_list best \<le> raw \<and> e < ?eff best
             \<and> (\<forall>c \<in> set pre. sum_list c \<le> raw \<longrightarrow> ?eff c < ?eff best)
             \<and> (\<forall>c \<in> set post. sum_list c \<le> raw \<longrightarrow> ?eff c \<le> ?eff best)
          else b' = b \<and> e' = e"
      by blast
    show ?thesis
    proof (cases "\<exists>c' \<in> set cs. sum_list c' \<le> raw \<and> e < ?eff c'")
      case better: True
      with post obtain best pre post where
        p: "cs = pre @ best # post" "b' = Some best" "e' = ?eff best" "sum_list best \<le> raw"
           "e < ?eff best"
           "\<forall>c \<in> set pre. sum_list c \<le> raw \<longrightarrow> ?eff c < ?eff best"
           "\<forall>c \<in> set post. sum_list c \<le> raw \<longrightarrow> ?eff c \<le> ?eff best"
        by auto
      have ex: "\<exists>c' \<in> set (c # cs). sum_list c' \<le> raw \<and> e < ?eff c'"
        using better by auto
      have "\<exists>best pre post. c # cs = pre @ best # post \<and> b' = Some best
             \<and> e' = ?eff best \<and> sum_list best \<le> raw \<and> e < ?eff best
             \<and> (\<forall>c \<in> set pre. sum_list c \<le> raw \<longrightarrow> ?eff c < ?eff best)
             \<and> (\<forall>c \<in> set post. sum_list c \<le> raw \<longrightarrow> ?eff c \<le> ?eff best)"
      proof (intro exI conjI)
        show "c # cs = (c # pre) @ best # post" using p(1) by simp
        show "b' = Some best" "e' = ?eff best" "sum_list best \<le> raw" "e < ?eff best"
          by (fact p)+
        show "\<forall>c \<in> set (c # pre). sum_list c \<le> raw \<longrightarrow> ?eff c < ?eff best"
          using p(5,6) False by auto
        show "\<forall>c \<in> set post. sum_list c \<le> raw \<longrightarrow> ?eff c \<le> ?eff best" by (fact p)
      qed
      with ex run step show ?thesis by simp
    next
      case none: False
      with False have nex: "\<not> (\<exists>c' \<in> set (c # cs). sum_list c' \<le> raw \<and> e < ?eff c')"
        by auto
      from none post have same: "b' = b \<and> e' = e" by simp
      show ?thesis
      proof (intro exI conjI)
        show "suggest_loop raw (c # cs) (b, e) = Inr (b', e')" using run step by simp
        show "if \<exists>c' \<in> set (c # cs). sum_list c' \<le> raw \<and> e < ?eff c'
          then \<exists>best pre post. c # cs = pre @ best # post \<and> b' = Some best
             \<and> e' = ?eff best \<and> sum_list best \<le> raw \<and> e < ?eff best
             \<and> (\<forall>c \<in> set pre. sum_list c \<le> raw \<longrightarrow> ?eff c < ?eff best)
             \<and> (\<forall>c \<in> set post. sum_list c \<le> raw \<longrightarrow> ?eff c \<le> ?eff best)
          else b' = b \<and> e' = e"
          unfolding if_not_P [OF nex] by (fact same)
      qed
    qed
  qed
qed

lemma suggest_loop_skip:
  "\<forall>c \<in> set cs. \<not> sum_list c \<le> raw \<Longrightarrow> suggest_loop raw cs st = Inr st"
  by (induction cs) (cases st, simp)+

lemma best_combo_of_small:
  assumes "raw < 1030"
  shows "best_combo_of raw = Inr None"
proof -
  have "\<forall>c \<in> set catalog_combos. \<not> sum_list c \<le> raw"
    using assms catalog_combos_total by fastforce
  from suggest_loop_skip [OF this, of "(None, 0)"]
  show ?thesis by (simp add: best_combo_of_def)
qed

lemma best_combo_of_char:
  assumes "1030 \<le> raw"
  shows "\<exists>best pre post. best_combo_of raw = Inr (Some best)
           \<and> catalog_combos = pre @ best # post \<and> sum_list best \<le> raw
           \<and> (\<forall>c \<in> set pre. sum_list c \<le> raw \<longrightarrow> combo_efficiency raw c < combo_efficiency raw best)
           \<and> (\<forall>c \<in> set post. sum_list c \<le> raw \<longrightarrow> combo_efficiency raw c \<le> combo_efficiency raw best)"
proof -
  from assms have pos: "0 < raw" by simp
  have "0 < combo_efficiency raw [515, 515]"
    using pos by (simp add: combo_efficiency_def)
  with smallest_pair assms
  have ex: "\<exists>c \<in> set catalog_combos. sum_list c \<le> raw \<and> 0 < combo_efficiency raw c"
    by (intro bexI [of _ "[515, 515]"]) simp_all
  from suggest_loop_char [OF pos, of catalog_combos None 0] ex
  obtain b' e' best pre post where
    "suggest_loop raw catalog_combos (None, 0) = Inr (b', e')"
    "catalog_combos = pre @ best # post" "b' = Some best" "sum_list best \<le> raw"
    "\<forall>c \<in> set pre. sum_list c \<le> raw \<longrightarrow> combo_efficiency raw c < combo_efficiency raw best"
    "\<forall>c \<in> set post. sum_list c \<le> raw \<longrightarrow> combo_efficiency raw c \<le> combo_efficiency raw best"
    by (auto simp: if_P [OF ex])
  then show ?thesis by (auto simp: best_combo_of_def)
qed

subsection \<open>The conversion to quantities\<close>

lemma update_fold_keys:
  "fst ` set kcs \<subseteq> fst ` set d \<Longrightarrow>
     map fst (foldl (\<lambda>d (len, count). AList.update len count d) d kcs) = map fst d"
proof (induction kcs arbitrary: d)
  case Nil
  show ?case by simp
next
  case (Cons p kcs)
  obtain k c where p: "p = (k, c)" by (cases p)
  from Cons.prems have k: "k \<in> fst ` set d" by (simp add: p)
  then have same: "map fst (AList.update k c d) = map fst d"
    by (simp add: update_keys)
  then have "fst ` set (AList.update k c d) = fst ` set d"
    by (metis set_map)
  with Cons.prems have "fst ` set kcs \<subseteq> fst ` set (AList.update k c d)" by simp
  from Cons.IH [OF this] same show ?case by (simp add: p)
qed

lemma update_fold_map_of:
  "distinct (map fst kcs) \<Longrightarrow>
     map_of (foldl (\<lambda>d (len, count). AList.update len count d) d kcs) k =
       (case map_of kcs k of None \<Rightarrow> map_of d k | Some c \<Rightarrow> Some c)"
proof (induction kcs arbitrary: d)
  case Nil
  show ?case by simp
next
  case (Cons p kcs)
  obtain k' c' where p: "p = (k', c')" by (cases p)
  from Cons.prems have d: "distinct (map fst kcs)" and nin: "k' \<notin> fst ` set kcs"
    by (simp_all add: p)
  from nin have none: "map_of kcs k' = None" by (simp add: map_of_eq_None_iff)
  show ?case
    using Cons.IH [OF d, of "AList.update k' c' d"] none
    by (auto simp: p update_conv' split: option.splits)
qed

lemma zero_quantities_keys: "map fst zero_quantities = CUT_LENGTHS"
  by (simp add: zero_quantities_def comp_def)

lemma zero_quantities_map_of:
  "map_of zero_quantities k = (if k \<in> set CUT_LENGTHS then Some 0 else None)"
  by (induction CUT_LENGTHS) (auto simp: zero_quantities_def map_of_map_restrict restrict_map_def)

lemma to_quantities_keys:
  assumes "\<forall>c. b = Some c \<longrightarrow> set c \<subseteq> set CUT_LENGTHS"
  shows "map fst (to_quantities b) = CUT_LENGTHS"
proof (cases b)
  case None
  then show ?thesis by (simp add: to_quantities_def zero_quantities_keys)
next
  case (Some c)
  with assms have "set c \<subseteq> set CUT_LENGTHS" by simp
  then have "fst ` set (Counter c) \<subseteq> fst ` set zero_quantities"
    using arg_cong [OF zero_quantities_keys, of set] by (simp add: Counter_keys)
  from update_fold_keys [OF this] Some show ?thesis
    by (simp add: to_quantities_def zero_quantities_keys)
qed

lemma to_quantities_map_of:
  assumes "set c \<subseteq> set CUT_LENGTHS" and "k \<in> set CUT_LENGTHS"
  shows "map_of (to_quantities (Some c)) k = Some (int (count_list c k))"
proof (cases "c = []")
  case True
  with assms(2) show ?thesis by (simp add: to_quantities_def zero_quantities_map_of)
next
  case False
  then have "map_of (to_quantities (Some c)) k =
      (case map_of (Counter c) k of None \<Rightarrow> map_of zero_quantities k | Some n \<Rightarrow> Some n)"
    using update_fold_map_of [OF Counter_distinct, of zero_quantities c k]
    by (simp add: to_quantities_def)
  with assms(2) show ?thesis
    by (simp add: Counter_map_of zero_quantities_map_of)
qed

lemma alist_by_keys:
  "distinct (map fst al) \<Longrightarrow> al = map (\<lambda>k. (k, the (map_of al k))) (map fst al)"
proof (induction al)
  case Nil
  show ?case by simp
next
  case (Cons p al)
  obtain k v where p: "p = (k, v)" by (cases p)
  from Cons.prems have d: "distinct (map fst al)" and nin: "k \<notin> fst ` set al"
    by (simp_all add: p)
  have "map (\<lambda>k'. (k', the (map_of ((k, v) # al) k'))) (map fst al)
        = map (\<lambda>k'. (k', the (map_of al k'))) (map fst al)"
    using nin by (intro map_cong) auto
  with Cons.IH [OF d] show ?case by (simp add: p)
qed

lemma to_quantities_eq:
  assumes "set c \<subseteq> set CUT_LENGTHS"
  shows "to_quantities (Some c) = map (\<lambda>k. (k, int (count_list c k))) CUT_LENGTHS"
proof -
  have keys: "map fst (to_quantities (Some c)) = CUT_LENGTHS"
    using assms by (intro to_quantities_keys) simp
  then have "distinct (map fst (to_quantities (Some c)))"
    by (simp add: CUT_LENGTHS_distinct)
  from alist_by_keys [OF this]
  have "to_quantities (Some c) = map (\<lambda>k. (k, the (map_of (to_quantities (Some c)) k))) CUT_LENGTHS"
    using keys by simp
  also have "\<dots> = map (\<lambda>k. (k, int (count_list c k))) CUT_LENGTHS"
    using assms by (intro map_cong) (simp_all add: to_quantities_map_of)
  finally show ?thesis .
qed

lemma count_weighted_sum:
  assumes "distinct xs" and "set ys \<subseteq> set xs"
  shows "(\<Sum>x\<leftarrow>xs. f x * int (count_list ys x)) = (\<Sum>y\<leftarrow>ys. (f y :: int))"
  using assms(2)
proof (induction ys)
  case Nil
  show ?case by simp
next
  case (Cons y ys)
  then have y: "y \<in> set xs" and sub: "set ys \<subseteq> set xs" by simp_all
  have "(\<Sum>x\<leftarrow>xs. f x * int (count_list (y # ys) x))
        = (\<Sum>x\<leftarrow>xs. f x * int (count_list ys x) + (if x = y then f y else 0))"
    by (intro arg_cong [where f = sum_list] map_cong) (auto simp: algebra_simps)
  also have "\<dots> = (\<Sum>x\<leftarrow>xs. f x * int (count_list ys x)) + (\<Sum>x\<leftarrow>xs. if x = y then f y else 0)"
    by (simp add: sum_list_addf)
  also have "(\<Sum>x\<leftarrow>xs. if x = y then f y else 0) = f y"
    using assms(1) y by (simp add: sum_list_distinct_conv_sum_set)
  finally show ?case using Cons.IH [OF sub] by simp
qed

subsection \<open>The function as a whole\<close>

lemma suggest_small:
  "raw < 1030 \<Longrightarrow> suggest_optimal_quantities raw = Inr zero_quantities"
  by (simp add: suggest_optimal_quantities_def best_combo_of_small to_quantities_def)

lemma suggest_large:
  assumes "1030 \<le> raw"
  shows "\<exists>best pre post. best_combo_of raw = Inr (Some best)
           \<and> catalog_combos = pre @ best # post \<and> sum_list best \<le> raw
           \<and> 2 \<le> length best \<and> length best \<le> 4 \<and> set best \<subseteq> set CUT_LENGTHS
           \<and> (\<forall>c \<in> set pre. sum_list c \<le> raw \<longrightarrow> combo_efficiency raw c < combo_efficiency raw best)
           \<and> (\<forall>c \<in> set post. sum_list c \<le> raw \<longrightarrow> combo_efficiency raw c \<le> combo_efficiency raw best)
           \<and> suggest_optimal_quantities raw =
               Inr (map (\<lambda>len. (len, int (count_list best len))) CUT_LENGTHS)"
proof -
  from best_combo_of_char [OF assms] obtain best pre post where
    b: "best_combo_of raw = Inr (Some best)" "catalog_combos = pre @ best # post"
       "sum_list best \<le> raw"
       "\<forall>c \<in> set pre. sum_list c \<le> raw \<longrightarrow> combo_efficiency raw c < combo_efficiency raw best"
       "\<forall>c \<in> set post. sum_list c \<le> raw \<longrightarrow> combo_efficiency raw c \<le> combo_efficiency raw best"
    by blast
  have "best \<in> set catalog_combos" unfolding b(2) by simp
  from catalog_combos_sizes [OF this]
  have sz: "2 \<le> length best" "length best \<le> 4" "set best \<subseteq> set CUT_LENGTHS" by simp_all
  have "suggest_optimal_quantities raw =
          Inr (map (\<lambda>len. (len, int (count_list best len))) CUT_LENGTHS)"
    using b(1) to_quantities_eq [OF sz(3)] by (simp add: suggest_optimal_quantities_def)
  with b sz show ?thesis by blast
qed


lemma zero_quantities_all_zero: "(len, qty) \<in> set zero_quantities \<Longrightarrow> qty = 0"
  by (auto simp: zero_quantities_def)

section \<open>The claims about \<^verbatim>\<open>suggest_optimal_quantities\<close>\<close>




text \<open>
  Claim C6. For a positive raw length, \<^verbatim>\<open>suggest_optimal_quantities\<close> returns a
  dictionary whose keys are exactly the 20 catalog lengths, every value is a non-negative
  integer, and the sum of length times quantity over the dictionary is at most the raw
  length.
\<close>

theorem suggest_complete_mapping:
  assumes "0 < raw_length"
  shows "\<exists>suggested. suggest_optimal_quantities raw_length = Inr suggested
     \<and> map fst suggested =
         [515, 1025, 1145, 1835, 2045, 2075, 2165, 2515, 2835, 3575,
          3695, 3755, 3815, 4085, 4155, 4225, 5015, 5375, 5515, 6000]
     \<and> map fst suggested = CUT_LENGTHS \<and> distinct (map fst suggested)
     \<and> length suggested = 20
     \<and> (\<forall>(len, qty) \<in> set suggested. 0 \<le> qty)
     \<and> (\<Sum>(len, qty)\<leftarrow>suggested. len * qty) \<le> raw_length"
proof -
  have "\<exists>suggested. suggest_optimal_quantities raw_length = Inr suggested
     \<and> map fst suggested = CUT_LENGTHS
     \<and> (\<forall>(len, qty) \<in> set suggested. 0 \<le> qty)
     \<and> (\<Sum>(len, qty)\<leftarrow>suggested. len * qty) \<le> raw_length"
  proof (cases "raw_length < 1030")
    case True
    have "(\<Sum>(len, qty)\<leftarrow>zero_quantities. len * qty) = 0"
      by (simp add: zero_quantities_def comp_def)
    with suggest_small [OF True] assms zero_quantities_keys zero_quantities_all_zero
    show ?thesis by fastforce
  next
    case False
    then have "1030 \<le> raw_length" by simp
    from suggest_large [OF this] obtain best where
      b: "sum_list best \<le> raw_length" "set best \<subseteq> set CUT_LENGTHS"
         "suggest_optimal_quantities raw_length =
            Inr (map (\<lambda>len. (len, int (count_list best len))) CUT_LENGTHS)"
      by blast
    let ?m = "map (\<lambda>len. (len, int (count_list best len))) CUT_LENGTHS"
    have "(\<Sum>(len, qty)\<leftarrow>?m. len * qty) = (\<Sum>len\<leftarrow>CUT_LENGTHS. len * int (count_list best len))"
      by (simp add: comp_def)
    also have "\<dots> = sum_list best"
      using count_weighted_sum [OF CUT_LENGTHS_distinct b(2), of "\<lambda>x. x"] by simp
    finally have "(\<Sum>(len, qty)\<leftarrow>?m. len * qty) \<le> raw_length" using b(1) by simp
    moreover have "map fst ?m = CUT_LENGTHS" by (simp add: comp_def)
    moreover have "\<forall>(len, qty) \<in> set ?m. 0 \<le> qty" by auto
    ultimately show ?thesis using b(3) by blast
  qed
  then obtain suggested where
    s: "suggest_optimal_quantities raw_length = Inr suggested"
       "map fst suggested = CUT_LENGTHS"
       "\<forall>(len, qty) \<in> set suggested. 0 \<le> qty"
       "(\<Sum>(len, qty)\<leftarrow>suggested. len * qty) \<le> raw_length"
    by blast
  from s(2) have "length suggested = length CUT_LENGTHS" by (metis length_map)
  then have len: "length suggested = 20" by (simp add: CUT_LENGTHS_def)
  from s(2) have dist: "distinct (map fst suggested)" by (simp add: CUT_LENGTHS_distinct)
  from s(2) have keys: "map fst suggested =
         [515, 1025, 1145, 1835, 2045, 2075, 2165, 2515, 2835, 3575,
          3695, 3755, 3815, 4085, 4155, 4225, 5015, 5375, 5515, 6000]"
    by (simp add: CUT_LENGTHS_def)
  show ?thesis
  proof (intro exI conjI)
    show "suggest_optimal_quantities raw_length = Inr suggested" by (fact s(1))
    show "map fst suggested =
         [515, 1025, 1145, 1835, 2045, 2075, 2165, 2515, 2835, 3575,
          3695, 3755, 3815, 4085, 4155, 4225, 5015, 5375, 5515, 6000]" by (fact keys)
    show "map fst suggested = CUT_LENGTHS" by (fact s(2))
    show "distinct (map fst suggested)" by (fact dist)
    show "length suggested = 20" by (fact len)
    show "\<forall>(len, qty) \<in> set suggested. 0 \<le> qty" by (fact s(3))
    show "(\<Sum>(len, qty)\<leftarrow>suggested. len * qty) \<le> raw_length" by (fact s(4))
  qed
qed

theorem suggest_complete_mapping_witness:
  "\<exists>suggested. suggest_optimal_quantities 6000 = Inr suggested
     \<and> map fst suggested = CUT_LENGTHS
     \<and> (\<forall>(len, qty) \<in> set suggested. 0 \<le> qty)
     \<and> (\<Sum>(len, qty)\<leftarrow>suggested. len * qty) \<le> 6000"
  using suggest_complete_mapping [of 6000] by auto

text \<open>
  Claim C9. The quantities returned by \<^verbatim>\<open>suggest_optimal_quantities\<close> sum to 0 or to a
  number from 2 to 4: a single piece is never suggested, and for every raw length below
  1030 the dictionary is all zero, also where one catalog piece alone would fit.
\<close>

theorem suggested_piece_count:
  "\<exists>suggested. suggest_optimal_quantities raw_length = Inr suggested
     \<and> (sum_list (map snd suggested) = 0
          \<or> 2 \<le> sum_list (map snd suggested) \<and> sum_list (map snd suggested) \<le> 4)
     \<and> (raw_length < 1030 \<longrightarrow>
          suggested = zero_quantities \<and> (\<forall>(len, qty) \<in> set suggested. qty = 0))"
proof (cases "raw_length < 1030")
  case True
  have "sum_list (map snd zero_quantities) = 0"
    by (simp add: zero_quantities_def comp_def)
  with suggest_small [OF True] zero_quantities_all_zero show ?thesis by fastforce
next
  case False
  then have "1030 \<le> raw_length" by simp
  from suggest_large [OF this] obtain best where
    b: "2 \<le> length best" "length best \<le> 4" "set best \<subseteq> set CUT_LENGTHS"
       "suggest_optimal_quantities raw_length =
          Inr (map (\<lambda>len. (len, int (count_list best len))) CUT_LENGTHS)"
    by blast
  let ?m = "map (\<lambda>len. (len, int (count_list best len))) CUT_LENGTHS"
  have "sum_list (map snd ?m) = (\<Sum>len\<leftarrow>CUT_LENGTHS. 1 * int (count_list best len))"
    by (simp add: comp_def)
  also have "\<dots> = (\<Sum>y\<leftarrow>best. 1)"
    by (rule count_weighted_sum [OF CUT_LENGTHS_distinct b(3)])
  also have "\<dots> = int (length best)" by (simp add: sum_list_triv)
  finally have "2 \<le> sum_list (map snd ?m) \<and> sum_list (map snd ?m) \<le> 4"
    using b(1,2) by simp
  with b(4) False show ?thesis by auto
qed

theorem suggested_piece_count_witness:
  "\<exists>suggested. suggest_optimal_quantities 1000 = Inr suggested
     \<and> sum_list (map snd suggested) = 0 \<and> suggested = zero_quantities"
proof -
  have "sum_list (map snd zero_quantities) = 0"
    by (simp add: zero_quantities_def comp_def)
  with suggested_piece_count [of 1000] show ?thesis by auto
qed



end
